theory Spec2Isabelle
  imports Main
begin

section \<open>Strings as the source uses them\<close>

text \<open>
  JavaScript strings are modelled as \<^typ>\<open>string\<close> (a list of characters, one for each
  code unit). The source uses four string operations: \<open>startsWith\<close>, \<open>substring(n)\<close>
  (which is \<^const>\<open>drop\<close>), \<open>includes\<close> and \<open>replace\<close> with a global regular expression.
\<close>

definition startsWith :: "string \<Rightarrow> string \<Rightarrow> bool" where
  "startsWith s p = (take (length p) s = p)"

fun includesStr :: "string \<Rightarrow> string \<Rightarrow> bool" where
  "includesStr [] p = (p = [])"
| "includesStr (c # cs) p = (startsWith (c # cs) p \<or> includesStr cs p)"

text \<open>The character class of the regular expression \<open>/[<>:"|?*]/g\<close> (index.js, line 182).\<close>

definition illegalChars :: "char list" where
  "illegalChars = [CHR ''<'', CHR ''>'', CHR '':'', CHR 0x22, CHR ''|'', CHR ''?'', CHR ''*'']"

text \<open>\<open>source.replace(/[<>:"|?*]/g, '_')\<close>: every character of the class becomes an underscore.\<close>

definition replaceIllegal :: "string \<Rightarrow> string" where
  "replaceIllegal s = map (\<lambda>c. if c \<in> set illegalChars then CHR ''_'' else c) s"

text \<open>
  \<open>cleanPath.replace(/\.\.\//g, 'parent/')\<close>: the string is scanned from the left; at each
  position where \<open>../\<close> starts, it is replaced and the scan goes on behind it.
\<close>

fun replaceParent :: "string \<Rightarrow> string" where
  "replaceParent [] = []"
| "replaceParent (c # cs) =
     (if startsWith (c # cs) ''../'' then ''parent/'' @ replaceParent (drop 2 cs)
      else c # replaceParent cs)"

section \<open>The path clean-up of \<open>extractSourceMap\<close>\<close>

text \<open>
  Lines 182 to 196 of index.js, the computation of the local variable \<open>cleanPath\<close> from
  \<open>source\<close>, in the order of the source: the character replacement first, then the
  \<open>if\<close>/\<open>else if\<close> chain on the prefix, then the leading slash.
\<close>

definition stripPrefix :: "string \<Rightarrow> string" where
  "stripPrefix p =
     (if startsWith p ''webpack://./'' then drop (length ''webpack://./'') p
      else if startsWith p ''./'' then drop (length ''./'') p
      else if startsWith p ''../'' then replaceParent p
      else p)"

definition stripSlash :: "string \<Rightarrow> string" where
  "stripSlash p = (if startsWith p ''/'' then drop 1 p else p)"

definition cleanPath :: "string \<Rightarrow> string" where
  "cleanPath source = stripSlash (stripPrefix (replaceIllegal source))"

section \<open>The fetch collaborator\<close>

text \<open>
  What \<open>client.get\<close> does for a URL is the environment's. The request ends in an
  \<open>error\<close> event (this includes a URL or protocol the client refuses), or in the 30 second
  timeout, or a response arrives with its status code. The body of a response either
  comes to its end (\<open>Some\<close> of the concatenated chunks) or does not (\<open>None\<close>): when the
  connection is closed after the headers, or the body goes on for ever, the response emits
  no \<open>end\<close>, and none of the events that \<open>fetchUrl\<close> listens to.
\<close>

datatype response = RequestError string | RequestTimeout | Response nat "string option"

text \<open>
  A promise that is awaited: it is resolved with a value, rejected with an error's
  message, or it stays pending for ever, and then the \<open>await\<close> never returns.
\<close>

datatype 'a promise = Resolves 'a | Rejects string | Pending

text \<open>The template literal \<open>${res.statusCode}\<close>: a natural number in decimal.\<close>

fun decimal :: "nat \<Rightarrow> string" where
  "decimal n =
     (if n < 10 then [''0123456789'' ! n]
      else decimal (n div 10) @ [''0123456789'' ! (n mod 10)])"

declare decimal.simps [simp del]

text \<open>
  \<open>fetchUrl\<close> (lines 26 to 48). The status is tested when the response arrives, before
  any of the body is read; a response with a good status resolves the promise only at the
  \<open>end\<close> of its body.
\<close>

definition fetchUrl :: "(string \<Rightarrow> response) \<Rightarrow> string \<Rightarrow> string promise" where
  "fetchUrl client url =
     (case client url of
        RequestError msg \<Rightarrow> Rejects msg
      | RequestTimeout \<Rightarrow> Rejects ''Request timeout''
      | Response statusCode body \<Rightarrow>
          if statusCode < 200 \<or> statusCode \<ge> 300
          then Rejects (''HTTP error! status: '' @ decimal statusCode)
          else (case body of Some data \<Rightarrow> Resolves data | None \<Rightarrow> Pending))"

section \<open>The environment of \<open>extractSourceMap\<close>\<close>

text \<open>
  The map consumer of the \<open>source-map\<close> library, as far as the source reads it: the
  list \<open>consumer.sources\<close> and the method \<open>consumer.sourceContentFor\<close>, which is given the
  identifier (not an index) and answers \<open>null\<close> (\<open>None\<close>) or a content.
\<close>

record consumer =
  sources :: "string list"
  sourceContentFor :: "string \<Rightarrow> string option"

text \<open>
  The collaborators that are not part of the repository are parameters: the HTTP client,
  \<open>new URL(source, sourceMapURL).href\<close> (which throws on an unparsable URL), \<open>JSON.parse\<close>,
  the construction of the consumer by \<open>SourceMapConsumer.with\<close>, \<open>zip.generateAsync\<close>
  and \<open>fs.writeFile\<close>. A failure is the thrown error's message; a write that fails is
  taken to leave the files as they were.
\<close>

record ('j, 'b) env =
  httpGet :: "string \<Rightarrow> response"
  resolveUrl :: "string \<Rightarrow> string \<Rightarrow> string + string"
  jsonParse :: "string \<Rightarrow> string + 'j"
  newConsumer :: "'j \<Rightarrow> string + consumer"
  generateAsync :: "(string \<rightharpoonup> string) \<Rightarrow> string + 'b"
  writeFile :: "string \<Rightarrow> 'b \<Rightarrow> string option"

text \<open>The console output, one entry per call, and the files written.\<close>

datatype line = Log string | Warn string string | Error string string

record 'b world =
  console :: "line list"
  files :: "string \<rightharpoonup> 'b"

text \<open>
  How a call of \<open>extractSourceMap\<close> ends: its promise is resolved, its promise is rejected
  with an error, the process is ended by \<open>process.exit\<close>, or the call waits for ever on a
  promise that stays pending (its own promise is then never settled, and the process ends
  with status 0 once nothing else is left to run).
\<close>

datatype outcome = Resolved | Rejected string | Exited nat | NeverSettles

section \<open>Resolving the content of one source\<close>

text \<open>The synthetic content of line 177.\<close>

definition placeholder :: "string \<Rightarrow> string \<Rightarrow> string" where
  "placeholder source msg =
     ''// Error fetching source: '' @ source @ [CHR 0x0A] @ ''// '' @ msg"

text \<open>The body of the \<open>try\<close> block (lines 171 to 174), with the lines it prints.\<close>

definition fetchSource ::
  "('j, 'b) env \<Rightarrow> string \<Rightarrow> string \<Rightarrow> string promise \<times> line list" where
  "fetchSource e sourceMapURL source =
     (case resolveUrl e source sourceMapURL of
        Inl msg \<Rightarrow> (Rejects msg, [])
      | Inr href \<Rightarrow> (fetchUrl (httpGet e) href, [Log (''Fetching source from: '' @ href)]))"

text \<open>
  Lines 166 to 179: the embedded content, the fetched content or the placeholder, or no
  content at all (\<open>None\<close>) when the fetch stays pending.
\<close>

definition sourceContent ::
  "('j, 'b) env \<Rightarrow> consumer \<Rightarrow> string \<Rightarrow> string \<Rightarrow> string option \<times> line list" where
  "sourceContent e c sourceMapURL source =
     (case sourceContentFor c source of
        Some content \<Rightarrow> (Some content, [])
      | None \<Rightarrow>
          (case fetchSource e sourceMapURL source of
             (Resolves content, out) \<Rightarrow> (Some content, out)
           | (Rejects msg, out) \<Rightarrow>
               (Some (placeholder source msg),
                out @ [Warn (''Error fetching '' @ source @ '':'') msg])
           | (Pending, out) \<Rightarrow> (None, out)))"

section \<open>The archive\<close>

text \<open>
  Modelled from the spec: the JSZip object is not part of the repository; the archive is
  the spec's ArchiveTree, a mapping from path to content, and \<open>zip.file(path, content)\<close>
  stores the content at the path, in place of what was stored there before. The entries
  that JSZip adds for the directories of a path are not part of the mapping.
\<close>

type_synonym zip = "string \<rightharpoonup> string"

definition zipFile :: "zip \<Rightarrow> string \<Rightarrow> string \<Rightarrow> zip" where
  "zipFile z path content = z(path \<mapsto> content)"

text \<open>
  The state of the loop over \<open>consumer.sources\<close>: the \<open>zip\<close> object, the lines printed so
  far, and whether the loop is waiting on a fetch that stays pending, in which case
  nothing more of it runs.
\<close>

record run =
  archive :: zip
  printed :: "line list"
  waiting :: bool

text \<open>The state before the loop: \<open>new JSZip()\<close>.\<close>

definition newZip :: "line list \<Rightarrow> run" where
  "newZip out = \<lparr>archive = Map.empty, printed = out, waiting = False\<rparr>"

text \<open>The body of the loop (lines 164 to 198).\<close>

definition processSource ::
  "('j, 'b) env \<Rightarrow> consumer \<Rightarrow> string \<Rightarrow> run \<Rightarrow> string \<Rightarrow> run" where
  "processSource e c sourceMapURL st source =
     (if waiting st then st
      else case sourceContent e c sourceMapURL source of
        (Some content, out) \<Rightarrow>
          st\<lparr>archive := zipFile (archive st) (cleanPath source) content,
             printed := printed st @ [Log (''Processing: '' @ source)] @ out\<rparr>
      | (None, out) \<Rightarrow>
          st\<lparr>printed := printed st @ [Log (''Processing: '' @ source)] @ out,
             waiting := True\<rparr>)"

definition processSources ::
  "('j, 'b) env \<Rightarrow> consumer \<Rightarrow> string \<Rightarrow> run \<Rightarrow> string list \<Rightarrow> run" where
  "processSources e c sourceMapURL st srcs = foldl (processSource e c sourceMapURL) st srcs"

section \<open>\<open>extractSourceMap\<close>\<close>

text \<open>Lines 152 to 161: the sources that contain \<open>package.json\<close>, and their report.\<close>

definition packageJsonFiles :: "string list \<Rightarrow> string list" where
  "packageJsonFiles srcs = filter (\<lambda>source. includesStr source ''package.json'') srcs"

definition reportPackageJson :: "string list \<Rightarrow> line list" where
  "reportPackageJson fs =
     (if length fs > 0
      then Log (''Found '' @ decimal (length fs) @ '' package.json file(s):'')
           # map (\<lambda>file. Log (''  - '' @ file)) fs
      else [Log ''No package.json files found in source map''])"

text \<open>The \<open>catch\<close> block (lines 210 to 213).\<close>

definition fatal :: "string \<Rightarrow> 'b world \<Rightarrow> outcome \<times> 'b world" where
  "fatal msg w = (Exited 1, w\<lparr>console := console w @ [Error ''Error:'' msg]\<rparr>)"

definition say :: "line list \<Rightarrow> 'b world \<Rightarrow> 'b world" where
  "say ls w = w\<lparr>console := console w @ ls\<rparr>"

text \<open>The callback given to \<open>SourceMapConsumer.with\<close> (lines 146 to 208).\<close>

definition withConsumer ::
  "('j, 'b) env \<Rightarrow> string \<Rightarrow> string \<Rightarrow> consumer \<Rightarrow> 'b world \<Rightarrow> outcome \<times> 'b world" where
  "withConsumer e sourceMapURL outputPath c w =
     (let w1 = say (Log (''Processing '' @ decimal (length (sources c)) @ '' sources...'')
                    # reportPackageJson (packageJsonFiles (sources c))) w;
          st = processSources e c sourceMapURL (newZip (console w1)) (sources c)
      in if waiting st then (NeverSettles, w1\<lparr>console := printed st\<rparr>)
         else
           (let w2 = say [Log ''Generating ZIP file...''] (w1\<lparr>console := printed st\<rparr>)
            in case generateAsync e (archive st) of
                 Inl msg \<Rightarrow> fatal msg w2
               | Inr zipBuffer \<Rightarrow>
                   (case writeFile e outputPath zipBuffer of
                      Some msg \<Rightarrow> fatal msg w2
                    | None \<Rightarrow>
                        (Resolved,
                         say [Log (''Sources extracted successfully to: '' @ outputPath)]
                           (w2\<lparr>files := (files w2)(outputPath \<mapsto> zipBuffer)\<rparr>)))))"

text \<open>Lines 136 to 214.\<close>

definition extractSourceMap ::
  "('j, 'b) env \<Rightarrow> string \<Rightarrow> string \<Rightarrow> 'b world \<Rightarrow> outcome \<times> 'b world" where
  "extractSourceMap e sourceMapURL outputPath w =
     (let w1 = say [Log (''Fetching source map from: '' @ sourceMapURL)] w
      in case fetchUrl (httpGet e) sourceMapURL of
           Rejects msg \<Rightarrow> fatal msg w1
         | Pending \<Rightarrow> (NeverSettles, w1)
         | Resolves rawData \<Rightarrow>
             (case jsonParse e rawData of
                Inl msg \<Rightarrow> fatal msg w1
              | Inr rawSourceMap \<Rightarrow>
                  (let w2 = say [Log ''Source map fetched successfully''] w1
                   in case newConsumer e rawSourceMap of
                        Inl msg \<Rightarrow> fatal msg w2
                      | Inr c \<Rightarrow> withConsumer e sourceMapURL outputPath c w2)))"

section \<open>A small concrete run\<close>

text \<open>
  A map with three sources, of which only \<open>a.js\<close> has embedded content, and a network in
  which the map is served (its text is abbreviated), \<open>lib/package.json\<close> is answered by a
  redirect, the response for \<open>broken.js.map\<close> breaks off after its headers, and every
  other request times out. Sources are resolved against the host of the map.
\<close>

definition demoMap :: consumer where
  "demoMap =
     \<lparr>sources = [''/a.js'', ''lib/package.json'', ''a.js''],
      sourceContentFor = (\<lambda>s. if s = ''a.js'' then Some ''let a'' else None)\<rparr>"

definition demoEnv :: "(string, string) env" where
  "demoEnv =
     \<lparr>httpGet = (\<lambda>url. if url = ''http://h/app.js.map'' then Response 200 (Some ''{...}'')
                     else if url = ''http://h/lib/package.json'' then Response 301 (Some [])
                     else if url = ''http://h/broken.js.map'' then Response 200 None
                     else RequestTimeout),
      resolveUrl = (\<lambda>source base.
                     if source = ''/a.js'' then Inr ''http://h/a.js''
                     else Inr (''http://h/'' @ source)),
      jsonParse = (\<lambda>raw. if raw = ''{...}'' then Inr raw else Inl ''Unexpected token''),
      newConsumer = (\<lambda>j. Inr demoMap),
      generateAsync = (\<lambda>z. Inr ''PK''),
      writeFile = (\<lambda>path buf. None)\<rparr>"

text \<open>A map whose two sources both have embedded content.\<close>

definition bundledMap :: consumer where
  "bundledMap =
     \<lparr>sources = [''a.js'', ''../b.js''], sourceContentFor = (\<lambda>s. Some (''// '' @ s))\<rparr>"


section \<open>Facts about the string operations\<close>

lemma replaceIllegal_length: "length (replaceIllegal s) = length s"
  by (simp add: replaceIllegal_def)

lemma replaceIllegal_Nil: "replaceIllegal [] = []"
  by (simp add: replaceIllegal_def)

lemma replaceIllegal_Cons:
  "replaceIllegal (c # cs) = (if c \<in> set illegalChars then CHR ''_'' else c) # replaceIllegal cs"
  by (simp add: replaceIllegal_def)

lemma replaceIllegal_legal: "c \<in> set (replaceIllegal s) \<Longrightarrow> c \<notin> set illegalChars"
  by (auto simp: replaceIllegal_def illegalChars_def)

lemma startsWith_Nil: "startsWith [] p = (p = [])"
  by (auto simp: startsWith_def)

lemma startsWith_Cons: "startsWith (c # cs) (d # ds) = (c = d \<and> startsWith cs ds)"
  by (simp add: startsWith_def)

lemma startsWith_empty: "startsWith s []"
  by (simp add: startsWith_def)

lemma startsWith_set: "startsWith s p \<Longrightarrow> set p \<subseteq> set s"
  unfolding startsWith_def by (metis set_take_subset)

lemma webpack_branch_dead: "\<not> startsWith (replaceIllegal s) ''webpack://./''"
proof
  assume "startsWith (replaceIllegal s) ''webpack://./''"
  then have "set ''webpack://./'' \<subseteq> set (replaceIllegal s)" by (rule startsWith_set)
  then have "CHR '':'' \<in> set (replaceIllegal s)" by auto
  then have "CHR '':'' \<notin> set illegalChars" by (rule replaceIllegal_legal)
  then show False by (simp add: illegalChars_def)
qed

lemma replaceParent_head:
  assumes "replaceParent cs = CHR ''.'' # CHR ''/'' # r"
  shows "startsWith cs ''./''"
proof (cases cs)
  case Nil
  with assms show ?thesis by simp
next
  case (Cons d ds)
  note outer = Cons
  show ?thesis
  proof (cases ds)
    case Nil
    with assms outer show ?thesis
      by (simp add: startsWith_Cons startsWith_Nil split: if_splits)
  next
    case (Cons e es)
    with assms outer show ?thesis
      by (simp add: startsWith_Cons startsWith_empty split: if_splits)
  qed
qed

lemma replaceParent_no_dotdot: "\<not> includesStr (replaceParent t) ''../''"
proof (induction t rule: replaceParent.induct)
  case 1
  show ?case by simp
next
  case (2 c cs)
  show ?case
  proof (cases "startsWith (c # cs) ''../''")
    case True
    with 2 show ?thesis by (simp add: startsWith_Cons startsWith_empty)
  next
    case False
    have "\<not> startsWith (c # replaceParent cs) ''../''"
    proof
      assume a: "startsWith (c # replaceParent cs) ''../''"
      then have c: "c = CHR ''.''" by (simp add: startsWith_Cons)
      from a have "startsWith (replaceParent cs) ''./''" by (simp add: startsWith_Cons)
      then obtain r where "replaceParent cs = CHR ''.'' # CHR ''/'' # r"
        by (cases "replaceParent cs"; simp add: startsWith_Cons startsWith_Nil)
           (metis list.exhaust startsWith_Cons startsWith_Nil list.distinct(1))
      then have "startsWith cs ''./''" by (rule replaceParent_head)
      with c False show False by (simp add: startsWith_Cons)
    qed
    with 2 False show ?thesis by simp
  qed
qed


lemma startsWith_append: "startsWith s p \<Longrightarrow> s = p @ drop (length p) s"
  unfolding startsWith_def by (metis append_take_drop_id)

lemma startsWith_replaceIllegal:
  "set p \<inter> (set illegalChars \<union> {CHR ''_''}) = {} \<Longrightarrow>
   startsWith (replaceIllegal s) p = startsWith s p"
proof (induction p arbitrary: s)
  case Nil
  show ?case by (simp add: startsWith_empty)
next
  case (Cons d ds)
  show ?case
  proof (cases s)
    case Nil
    then show ?thesis by (simp add: startsWith_Nil replaceIllegal_Nil)
  next
    case (Cons c cs)
    from Cons.prems have "set ds \<inter> (set illegalChars \<union> {CHR ''_''}) = {}" by auto
    then have ih: "startsWith (replaceIllegal cs) ds = startsWith cs ds" by (rule Cons.IH)
    from Cons.prems have "d \<notin> set illegalChars" "d \<noteq> CHR ''_''" by auto
    with ih Cons show ?thesis
      by (auto simp: startsWith_Cons replaceIllegal_Cons)
  qed
qed

lemma replaceParent_starts: "startsWith t ''../'' \<Longrightarrow> startsWith (replaceParent t) ''parent/''"
  by (cases t) (simp_all add: startsWith_Nil startsWith_Cons startsWith_empty)

lemma stripSlash_replaceParent:
  "startsWith t ''../'' \<Longrightarrow> stripSlash (replaceParent t) = replaceParent t"
  by (cases t) (simp_all add: stripSlash_def startsWith_Nil startsWith_Cons startsWith_empty)

lemma dotdot_not_dot: "startsWith p ''../'' \<Longrightarrow> \<not> startsWith p ''./''"
proof
  assume a: "startsWith p ''../''" and d: "startsWith p ''./''"
  from a have "p = ''../'' @ drop (length ''../'') p" by (rule startsWith_append)
  then obtain r where "p = ''../'' @ r" ..
  with d show False by (simp add: startsWith_Cons)
qed

lemma cleanPath_parent:
  assumes "startsWith s ''../''"
  shows "cleanPath s = replaceParent (replaceIllegal s)"
proof -
  have p: "startsWith (replaceIllegal s) ''../''"
    using assms by (simp add: startsWith_replaceIllegal illegalChars_def)
  then have "\<not> startsWith (replaceIllegal s) ''./''"
    by (rule dotdot_not_dot)
  with p show ?thesis
    by (simp add: cleanPath_def stripPrefix_def webpack_branch_dead stripSlash_replaceParent)
qed

lemma set_replaceParent: "set (replaceParent t) \<subseteq> set t \<union> set ''parent/''"
proof (induction t rule: replaceParent.induct)
  case 1
  show ?case by simp
next
  case (2 c cs)
  have "set (drop 2 cs) \<subseteq> set cs" by (rule set_drop_subset)
  with 2 show ?case by (auto split: if_splits)
qed

lemma set_stripSlash: "set (stripSlash p) \<subseteq> set p"
  by (auto simp: stripSlash_def dest: in_set_dropD)

lemma set_stripPrefix: "set (stripPrefix p) \<subseteq> set p \<union> set ''parent/''"
  using set_replaceParent [of p]
  by (auto simp: stripPrefix_def dest: in_set_dropD)

lemma cleanPath_legal: "set (cleanPath s) \<inter> set illegalChars = {}"
proof -
  have "set (cleanPath s) \<subseteq> set (replaceIllegal s) \<union> set ''parent/''"
    unfolding cleanPath_def using set_stripSlash set_stripPrefix by blast
  moreover have "set (replaceIllegal s) \<inter> set illegalChars = {}"
    using replaceIllegal_legal by blast
  moreover have "set ''parent/'' \<inter> set illegalChars = {}"
    by (simp add: illegalChars_def)
  ultimately show ?thesis by blast
qed

lemma cleanPath_plain:
  assumes "a \<noteq> CHR ''.''" and "a \<noteq> CHR ''/''"
  shows "cleanPath (a # s) = replaceIllegal (a # s)"
proof -
  obtain b where b: "replaceIllegal (a # s) = b # replaceIllegal s" "b \<noteq> CHR ''.''" "b \<noteq> CHR ''/''"
    using assms by (simp add: replaceIllegal_Cons)
  have dead: "\<not> startsWith (replaceIllegal (a # s)) ''webpack://./''"
    by (rule webpack_branch_dead)
  have "stripPrefix (replaceIllegal (a # s)) = replaceIllegal (a # s)"
    using dead b by (auto simp: stripPrefix_def startsWith_Cons)
  then show ?thesis
    using b by (simp add: cleanPath_def stripSlash_def startsWith_Cons)
qed

lemma cleanPath_unfold:
  "cleanPath s =
     (if startsWith (replaceIllegal s) ''./'' then stripSlash (drop (length ''./'') (replaceIllegal s))
      else if startsWith (replaceIllegal s) ''../'' then replaceParent (replaceIllegal s)
      else stripSlash (replaceIllegal s))"
  by (simp add: cleanPath_def stripPrefix_def webpack_branch_dead stripSlash_replaceParent)

lemma stripSlash_empty: "stripSlash r = [] \<longleftrightarrow> r = [] \<or> r = ''/''"
  by (cases r) (auto simp: stripSlash_def startsWith_Cons startsWith_empty)

lemma replaceIllegal_inverse:
  "replaceIllegal s = q \<Longrightarrow> CHR ''_'' \<notin> set q \<Longrightarrow> s = q"
  by (induction s arbitrary: q) (auto simp: replaceIllegal_Nil replaceIllegal_Cons split: if_splits)

lemma replaceParent_nonempty: "startsWith t ''../'' \<Longrightarrow> replaceParent t \<noteq> []"
  by (cases t) (simp_all add: startsWith_Nil)

lemma cleanPath_empty_iff: "cleanPath s = [] \<longleftrightarrow> s \<in> {[], ''/'', ''./'', ''.//''}"
proof
  assume "s \<in> {[], ''/'', ''./'', ''.//''}"
  then show "cleanPath s = []"
    by (auto simp: cleanPath_def stripPrefix_def stripSlash_def replaceIllegal_def
        illegalChars_def startsWith_def)
next
  assume e: "cleanPath s = []"
  let ?p = "replaceIllegal s"
  have "?p \<in> {[], ''/'', ''./'', ''.//''}"
  proof (cases "startsWith ?p ''./''")
    case True
    then have p: "?p = ''./'' @ drop (length ''./'') ?p" by (rule startsWith_append)
    from True e have "stripSlash (drop (length ''./'') ?p) = []" by (simp add: cleanPath_unfold)
    then have "drop (length ''./'') ?p = [] \<or> drop (length ''./'') ?p = ''/''"
      by (simp add: stripSlash_empty)
    with p show ?thesis by auto
  next
    case False
    note nodot = False
    show ?thesis
    proof (cases "startsWith ?p ''../''")
      case True
      with nodot e have "replaceParent ?p = []" by (simp add: cleanPath_unfold)
      with True show ?thesis by (simp add: replaceParent_nonempty)
    next
      case False
      with nodot e have "stripSlash ?p = []" by (simp add: cleanPath_unfold)
      then have "?p = [] \<or> ?p = ''/''" by (simp add: stripSlash_empty)
      then show ?thesis by blast
    qed
  qed
  then consider "?p = []" | "?p = ''/''" | "?p = ''./''" | "?p = ''.//''" by auto
  then show "s \<in> {[], ''/'', ''./'', ''.//''}"
  proof cases
    case 1 then have "s = []" by (rule replaceIllegal_inverse) simp
    then show ?thesis by simp
  next
    case 2 then have "s = ''/''" by (rule replaceIllegal_inverse) simp
    then show ?thesis by simp
  next
    case 3 then have "s = ''./''" by (rule replaceIllegal_inverse) simp
    then show ?thesis by simp
  next
    case 4 then have "s = ''.//''" by (rule replaceIllegal_inverse) simp
    then show ?thesis by simp
  qed
qed

lemma replaceIllegal_keeps:
  "c \<notin> set illegalChars \<Longrightarrow> c \<noteq> CHR ''_'' \<Longrightarrow> c \<in> set (replaceIllegal s) \<longleftrightarrow> c \<in> set s"
  by (induction s) (auto simp: replaceIllegal_Nil replaceIllegal_Cons)

lemma drop_prefix_keeps:
  assumes "startsWith p q" and "c \<notin> set q"
  shows "c \<in> set (drop (length q) p) \<longleftrightarrow> c \<in> set p"
proof -
  from assms(1) have "p = q @ drop (length q) p" by (rule startsWith_append)
  then have "set p = set q \<union> set (drop (length q) p)" by (metis set_append)
  with assms(2) show ?thesis by auto
qed

lemma stripSlash_keeps: "c \<noteq> CHR ''/'' \<Longrightarrow> c \<in> set (stripSlash p) \<longleftrightarrow> c \<in> set p"
  using drop_prefix_keeps [of p "''/''" c] by (simp add: stripSlash_def)

lemma replaceParent_keeps:
  "c \<notin> set ''../parent/'' \<Longrightarrow> c \<in> set (replaceParent t) \<longleftrightarrow> c \<in> set t"
proof (induction t rule: replaceParent.induct)
  case 1
  show ?case by simp
next
  case (2 d ds)
  show ?case
  proof (cases "startsWith (d # ds) ''../''")
    case True
    from "2.prems" have "c \<notin> set ''../''" by simp
    with True have "c \<in> set (drop (length ''../'') (d # ds)) \<longleftrightarrow> c \<in> set (d # ds)"
      by (rule drop_prefix_keeps)
    then have "c \<in> set (drop 2 ds) \<longleftrightarrow> c \<in> set (d # ds)" by (simp add: numeral_2_eq_2)
    with 2 True show ?thesis by simp
  next
    case False
    with 2 show ?thesis by simp
  qed
qed

lemma cleanPath_keeps:
  assumes "c \<notin> set illegalChars" and "c \<notin> set ''_../parent/''"
  shows "c \<in> set (cleanPath s) \<longleftrightarrow> c \<in> set s"
proof -
  let ?p = "replaceIllegal s"
  from assms have r: "c \<in> set ?p \<longleftrightarrow> c \<in> set s" by (simp add: replaceIllegal_keeps)
  from assms(2) have slash: "c \<noteq> CHR ''/''" by simp
  have "c \<in> set (cleanPath s) \<longleftrightarrow> c \<in> set ?p"
  proof (cases "startsWith ?p ''./''")
    case True
    moreover from assms(2) have "c \<notin> set ''./''" by simp
    ultimately have "c \<in> set (drop (length ''./'') ?p) \<longleftrightarrow> c \<in> set ?p"
      by (rule drop_prefix_keeps)
    with True slash show ?thesis by (simp add: cleanPath_unfold stripSlash_keeps)
  next
    case False
    note nodot = False
    show ?thesis
    proof (cases "startsWith ?p ''../''")
      case True
      from assms(2) have "c \<notin> set ''../parent/''" by simp
      then have "c \<in> set (replaceParent ?p) \<longleftrightarrow> c \<in> set ?p" by (rule replaceParent_keeps)
      with True nodot show ?thesis by (simp add: cleanPath_unfold)
    next
      case False
      with nodot slash show ?thesis by (simp add: cleanPath_unfold stripSlash_keeps)
    qed
  qed
  with r show ?thesis by simp
qed

lemmas cleanPath_eval =
  cleanPath_def stripSlash_def stripPrefix_def replaceIllegal_def illegalChars_def startsWith_def


lemma replaceIllegal_drop: "replaceIllegal (drop n s) = drop n (replaceIllegal s)"
  by (simp add: replaceIllegal_def drop_map)

lemma includesStr_replaceIllegal:
  assumes "set q \<inter> (set illegalChars \<union> {CHR ''_''}) = {}"
  shows "includesStr (replaceIllegal s) q = includesStr s q"
proof (induction s)
  case Nil
  show ?case by (simp add: replaceIllegal_Nil)
next
  case (Cons a s)
  have "startsWith (replaceIllegal (a # s)) q = startsWith (a # s) q"
    using assms by (rule startsWith_replaceIllegal)
  moreover obtain b where "replaceIllegal (a # s) = b # replaceIllegal s"
    by (simp add: replaceIllegal_Cons)
  ultimately show ?case using Cons.IH by simp
qed

lemma includesStr_stripSlash: "includesStr (stripSlash r) ''../'' = includesStr r ''../''"
  by (cases r) (auto simp: stripSlash_def startsWith_Cons startsWith_empty)

lemma includesStr_dotdot_replaceIllegal:
  "includesStr (replaceIllegal s) ''../'' = includesStr s ''../''"
  by (rule includesStr_replaceIllegal) (simp add: illegalChars_def)

lemma cleanPath_dot:
  assumes "startsWith s ''./''"
  shows "cleanPath s = stripSlash (drop (length ''./'') (replaceIllegal s))"
proof -
  have "startsWith (replaceIllegal s) ''./''"
    using assms by (simp add: startsWith_replaceIllegal illegalChars_def)
  then show ?thesis by (simp add: cleanPath_unfold)
qed

lemma cleanPath_other:
  assumes "\<not> startsWith s ''./''" and "\<not> startsWith s ''../''"
  shows "cleanPath s = stripSlash (replaceIllegal s)"
proof -
  have "\<not> startsWith (replaceIllegal s) ''./''" "\<not> startsWith (replaceIllegal s) ''../''"
    using assms by (simp_all add: startsWith_replaceIllegal illegalChars_def)
  then show ?thesis by (simp add: cleanPath_unfold)
qed

section \<open>Facts about the loop and the run\<close>

lemma processSources_Nil: "processSources e c url st [] = st"
  by (simp add: processSources_def)

lemma processSources_Cons:
  "processSources e c url st (s # xs) = processSources e c url (processSource e c url st s) xs"
  by (simp add: processSources_def)

lemma processSources_append:
  "processSources e c url st (xs @ ys) = processSources e c url (processSources e c url st xs) ys"
  by (simp add: processSources_def)

lemma settles_iff:
  "fst (sourceContent e c url t) \<noteq> None \<longleftrightarrow>
     sourceContentFor c t \<noteq> None \<or> fst (fetchSource e url t) \<noteq> Pending"
  by (auto simp: sourceContent_def split: option.splits prod.splits promise.splits)

lemma processSource_waiting: "waiting st \<Longrightarrow> processSource e c url st t = st"
  by (simp add: processSource_def)

lemma processSources_waiting: "waiting st \<Longrightarrow> processSources e c url st xs = st"
  by (induction xs) (simp_all add: processSources_Nil processSources_Cons processSource_waiting)

lemma processSource_settled:
  assumes "\<not> waiting st" and "fst (sourceContent e c url t) = Some content"
  shows "processSource e c url st t =
           st\<lparr>archive := (archive st)(cleanPath t \<mapsto> content),
              printed := printed st @ Log (''Processing: '' @ t) # snd (sourceContent e c url t)\<rparr>"
  using assms by (cases "sourceContent e c url t") (simp add: processSource_def zipFile_def)

lemma processSource_pending:
  assumes "\<not> waiting st" and "fst (sourceContent e c url t) = None"
  shows "processSource e c url st t =
           st\<lparr>printed := printed st @ Log (''Processing: '' @ t) # snd (sourceContent e c url t),
              waiting := True\<rparr>"
  using assms by (cases "sourceContent e c url t") (simp add: processSource_def)

lemma printed_step: "\<exists>ls. printed (processSource e c url st t) = printed st @ ls"
proof (cases "waiting st")
  case True
  then show ?thesis by (simp add: processSource_waiting)
next
  case False
  then show ?thesis
    by (cases "fst (sourceContent e c url t)")
       (simp_all add: processSource_settled processSource_pending)
qed

lemma printed_grows: "\<exists>ls. printed (processSources e c url st xs) = printed st @ ls"
proof (induction xs arbitrary: st)
  case Nil
  show ?case by (simp add: processSources_Nil)
next
  case (Cons t xs)
  obtain ls1 where "printed (processSource e c url st t) = printed st @ ls1"
    using printed_step by blast
  moreover obtain ls2 where "printed (processSources e c url (processSource e c url st t) xs)
      = printed (processSource e c url st t) @ ls2"
    using Cons.IH by blast
  ultimately show ?case by (simp add: processSources_Cons)
qed

lemma loop_finishes_iff:
  "\<not> waiting st \<Longrightarrow>
   \<not> waiting (processSources e c url st xs) \<longleftrightarrow>
     (\<forall>t \<in> set xs. fst (sourceContent e c url t) \<noteq> None)"
proof (induction xs arbitrary: st)
  case Nil
  then show ?case by (simp add: processSources_Nil)
next
  case (Cons t xs)
  show ?case
  proof (cases "fst (sourceContent e c url t)")
    case None
    with Cons.prems have "waiting (processSource e c url st t)"
      by (simp add: processSource_pending)
    then have "processSources e c url (processSource e c url st t) xs = processSource e c url st t"
      by (rule processSources_waiting)
    with None \<open>waiting (processSource e c url st t)\<close> show ?thesis
      by (simp add: processSources_Cons)
  next
    case (Some content)
    with Cons.prems have "\<not> waiting (processSource e c url st t)"
      by (simp add: processSource_settled)
    then have "\<not> waiting (processSources e c url (processSource e c url st t) xs) \<longleftrightarrow>
       (\<forall>t \<in> set xs. fst (sourceContent e c url t) \<noteq> None)"
      by (rule Cons.IH)
    with Some show ?thesis by (simp add: processSources_Cons)
  qed
qed

lemma step_archive:
  assumes "\<not> waiting st" and "fst (sourceContent e c url t) = Some content"
  shows "archive (processSource e c url st t) = (archive st)(cleanPath t \<mapsto> content)"
  using assms by (simp add: processSource_settled)


lemma step_waiting:
  assumes "\<not> waiting st"
  shows "waiting (processSource e c url st t) \<longleftrightarrow> fst (sourceContent e c url t) = None"
  using assms
  by (cases "fst (sourceContent e c url t)")
     (simp_all add: processSource_settled processSource_pending)

lemma step_archive_pending:
  assumes "fst (sourceContent e c url t) = None"
  shows "archive (processSource e c url st t) = archive st"
  using assms by (cases "waiting st") (simp_all add: processSource_waiting processSource_pending)

lemma archive_other:
  assumes "p \<notin> cleanPath ` set xs"
  shows "archive (processSources e c url st xs) p = archive st p"
  using assms
proof (induction xs arbitrary: st)
  case Nil
  show ?case by (simp add: processSources_Nil)
next
  case (Cons t xs)
  from Cons.prems have p: "p \<noteq> cleanPath t" "p \<notin> cleanPath ` set xs" by auto
  have "archive (processSource e c url st t) p = archive st p"
  proof (cases "waiting st")
    case True
    then show ?thesis by (simp add: processSource_waiting)
  next
    case False
    then show ?thesis
      using p(1)
      by (cases "fst (sourceContent e c url t)")
         (simp_all add: step_archive step_archive_pending)
  qed
  moreover from p(2)
  have "archive (processSources e c url (processSource e c url st t) xs) p
          = archive (processSource e c url st t) p"
    by (rule Cons.IH)
  ultimately show ?case by (simp add: processSources_Cons)
qed

lemma archive_dom:
  assumes "\<not> waiting st" and "\<forall>t \<in> set xs. fst (sourceContent e c url t) \<noteq> None"
  shows "dom (archive (processSources e c url st xs)) = dom (archive st) \<union> cleanPath ` set xs"
  using assms
proof (induction xs arbitrary: st)
  case Nil
  show ?case by (simp add: processSources_Nil)
next
  case (Cons t xs)
  from Cons.prems obtain content where content: "fst (sourceContent e c url t) = Some content"
    by auto
  let ?st = "processSource e c url st t"
  from Cons.prems(1) content have a: "archive ?st = (archive st)(cleanPath t \<mapsto> content)"
    by (rule step_archive)
  from Cons.prems(1) content have "\<not> waiting ?st" by (simp add: step_waiting)
  moreover from Cons.prems(2) have "\<forall>t \<in> set xs. fst (sourceContent e c url t) \<noteq> None" by simp
  ultimately have "dom (archive (processSources e c url ?st xs))
      = dom (archive ?st) \<union> cleanPath ` set xs"
    by (rule Cons.IH)
  with a show ?case by (simp add: processSources_Cons)
qed

lemma archive_last:
  assumes "\<not> waiting st" and "\<forall>t \<in> set xs. fst (sourceContent e c url t) \<noteq> None"
    and "fst (sourceContent e c url s) = Some content"
    and "cleanPath s \<notin> cleanPath ` set ys"
  shows "archive (processSources e c url st (xs @ s # ys)) (cleanPath s) = Some content"
proof -
  let ?st = "processSources e c url st xs"
  from assms(1,2) have w: "\<not> waiting ?st" by (simp add: loop_finishes_iff)
  have "archive (processSources e c url st (xs @ s # ys)) (cleanPath s) =
        archive (processSources e c url (processSource e c url ?st s) ys) (cleanPath s)"
    by (simp add: processSources_append processSources_Cons)
  also from assms(4) have "\<dots> = archive (processSource e c url ?st s) (cleanPath s)"
    by (rule archive_other)
  also from w assms(3) have "\<dots> = Some content" by (simp add: step_archive)
  finally show ?thesis .
qed



lemma archive_embedded:
  assumes "\<forall>s \<in> set xs. sourceContentFor c s \<noteq> None"
    and "archive st1 = archive st2" and "\<not> waiting st1" and "\<not> waiting st2"
  shows "archive (processSources e1 c url1 st1 xs) = archive (processSources e2 c url2 st2 xs)
         \<and> \<not> waiting (processSources e1 c url1 st1 xs)
         \<and> \<not> waiting (processSources e2 c url2 st2 xs)"
  using assms
proof (induction xs arbitrary: st1 st2)
  case Nil
  then show ?case by (simp add: processSources_Nil)
next
  case (Cons x xs)
  from Cons.prems(1) obtain content where "sourceContentFor c x = Some content" by auto
  then have sc: "fst (sourceContent e1 c url1 x) = Some content"
    "fst (sourceContent e2 c url2 x) = Some content"
    by (simp_all add: sourceContent_def)
  let ?s1 = "processSource e1 c url1 st1 x" and ?s2 = "processSource e2 c url2 st2 x"
  from Cons.prems sc have "archive ?s1 = archive ?s2" by (simp add: step_archive)
  moreover from Cons.prems sc have "\<not> waiting ?s1" "\<not> waiting ?s2" by (simp_all add: step_waiting)
  moreover from Cons.prems(1) have "\<forall>s \<in> set xs. sourceContentFor c s \<noteq> None" by simp
  ultimately have "archive (processSources e1 c url1 ?s1 xs) = archive (processSources e2 c url2 ?s2 xs)
         \<and> \<not> waiting (processSources e1 c url1 ?s1 xs)
         \<and> \<not> waiting (processSources e2 c url2 ?s2 xs)"
    by (intro Cons.IH)
  then show ?case by (simp add: processSources_Cons)
qed

lemma newZip_simps:
  "archive (newZip out) = Map.empty" "printed (newZip out) = out" "\<not> waiting (newZip out)"
  by (simp_all add: newZip_def)

lemma embedded_content:
  "sourceContentFor c s = Some content \<Longrightarrow> sourceContent e c url s = (Some content, [])"
  by (simp add: sourceContent_def)







lemma withConsumer_console:
  "\<exists>ls. console (snd (withConsumer e url outputPath c w)) =
     console w @ Log (''Processing '' @ decimal (length (sources c)) @ '' sources...'')
       # reportPackageJson (packageJsonFiles (sources c)) @ ls"
proof -
  let ?out = "console w @ Log (''Processing '' @ decimal (length (sources c)) @ '' sources...'')
                # reportPackageJson (packageJsonFiles (sources c))"
  obtain ls where "printed (processSources e c url (newZip ?out) (sources c)) = ?out @ ls"
    using printed_grows [of e c url "newZip ?out" "sources c"] by (auto simp: newZip_simps)
  then show ?thesis
    by (auto simp: withConsumer_def Let_def say_def fatal_def split: sum.splits option.splits)
qed

lemma count_packageJsonFiles:
  "includesStr s ''package.json'' \<Longrightarrow> count_list (packageJsonFiles srcs) s = count_list srcs s"
  by (induction srcs) (auto simp: packageJsonFiles_def)

lemma report_lists_file:
  "s \<in> set fs \<Longrightarrow> Log (''  - '' @ s) \<in> set (reportPackageJson fs)"
  by (cases fs) (auto simp: reportPackageJson_def)

lemma withConsumer_never_rejected: "fst (withConsumer e url outputPath c w) \<noteq> Rejected msg"
  by (simp add: withConsumer_def Let_def fatal_def split: sum.splits option.splits)

lemma extractSourceMap_never_rejected:
  "fst (extractSourceMap e url outputPath w) \<noteq> Rejected msg"
  by (simp add: extractSourceMap_def Let_def fatal_def withConsumer_never_rejected
      split: sum.splits promise.splits)

section \<open>The claims about the path clean-up\<close>

text \<open>
  C2 as stated fails: the rewriting of \<open>../\<close> is the last branch of the \<open>else if\<close> chain, so
  it is reached only by an identifier that begins with \<open>../\<close>. The clean-up leaves the
  parent-directory segment of \<open>webpack:a/../b.js\<close> and of \<open>a/../b.js\<close> where it is, and from
  \<open>./../x.js\<close> it makes \<open>../x.js\<close>.
\<close>

theorem traversal_kept_counterexample:
  "cleanPath ''webpack:a/../b.js'' = ''webpack_a/../b.js''
   \<and> includesStr (cleanPath ''webpack:a/../b.js'') ''../''
   \<and> cleanPath ''a/../b.js'' = ''a/../b.js''
   \<and> cleanPath ''./../x.js'' = ''../x.js''"
  by (simp add: cleanPath_eval)

text \<open>
  C2, amended: for every raw identifier that begins with \<open>../\<close>, the clean-up rewrites every
  \<open>../\<close> (found scanning from the left) to \<open>parent/\<close>, and its output contains no \<open>../\<close>.
  No other identifier is rewritten. For one that begins with \<open>./\<close> the output is what
  follows that prefix, with the seven characters replaced and one leading \<open>/\<close> removed, and
  it contains \<open>../\<close> exactly when the identifier has one behind the prefix. For one that
  begins with neither, the output is the identifier with the seven characters replaced and
  one leading \<open>/\<close> removed, and it contains \<open>../\<close> exactly when the identifier does.
\<close>

theorem leading_traversal_rewritten:
  "(startsWith s ''../'' \<longrightarrow>
      cleanPath s = replaceParent (replaceIllegal s) \<and> \<not> includesStr (cleanPath s) ''../'')
   \<and> (startsWith s ''./'' \<longrightarrow>
      cleanPath s = stripSlash (replaceIllegal (drop (length ''./'') s))
      \<and> (includesStr (cleanPath s) ''../'' \<longleftrightarrow> includesStr (drop (length ''./'') s) ''../''))
   \<and> (\<not> startsWith s ''./'' \<and> \<not> startsWith s ''../'' \<longrightarrow>
      cleanPath s = stripSlash (replaceIllegal s)
      \<and> (includesStr (cleanPath s) ''../'' \<longleftrightarrow> includesStr s ''../''))"
proof (intro conjI impI)
  assume "startsWith s ''../''"
  then show "cleanPath s = replaceParent (replaceIllegal s)" by (rule cleanPath_parent)
  then show "\<not> includesStr (cleanPath s) ''../''" by (simp add: replaceParent_no_dotdot)
next
  assume "startsWith s ''./''"
  then have "cleanPath s = stripSlash (drop (length ''./'') (replaceIllegal s))"
    by (rule cleanPath_dot)
  then show eq: "cleanPath s = stripSlash (replaceIllegal (drop (length ''./'') s))"
    by (simp only: replaceIllegal_drop)
  show "includesStr (cleanPath s) ''../'' \<longleftrightarrow> includesStr (drop (length ''./'') s) ''../''"
    by (simp only: eq includesStr_stripSlash includesStr_dotdot_replaceIllegal)
next
  assume "\<not> startsWith s ''./'' \<and> \<not> startsWith s ''../''"
  then show eq: "cleanPath s = stripSlash (replaceIllegal s)" by (simp add: cleanPath_other)
  show "includesStr (cleanPath s) ''../'' \<longleftrightarrow> includesStr s ''../''"
    by (simp only: eq includesStr_stripSlash includesStr_dotdot_replaceIllegal)
qed

theorem leading_traversal_rewritten_witness:
  "startsWith ''../a/../b.js'' ''../'' \<and> cleanPath ''../a/../b.js'' = ''parent/a/parent/b.js''
   \<and> \<not> includesStr (cleanPath ''../a/../b.js'') ''../''
   \<and> startsWith ''./../x.js'' ''./'' \<and> cleanPath ''./../x.js'' = ''../x.js''
   \<and> includesStr (cleanPath ''./../x.js'') ''../''
   \<and> \<not> startsWith ''a/../b?.js'' ''./'' \<and> \<not> startsWith ''a/../b?.js'' ''../''
   \<and> cleanPath ''a/../b?.js'' = ''a/../b_.js''
   \<and> includesStr (cleanPath ''a/../b?.js'') ''../''"
  using leading_traversal_rewritten [of "''../a/../b.js''"]
    leading_traversal_rewritten [of "''./../x.js''"]
    leading_traversal_rewritten [of "''a/../b?.js''"]
  by (simp add: replaceIllegal_def illegalChars_def startsWith_def stripSlash_def)

text \<open>
  C4 as stated fails: the character class has the seven characters and no control
  character, so the control character U+0001 stays in the path.
\<close>

theorem control_character_kept_counterexample:
  "cleanPath [CHR ''a'', CHR 0x01, CHR ''b''] = [CHR ''a'', CHR 0x01, CHR ''b'']"
  by (simp add: cleanPath_eval)

text \<open>
  C4, amended: the output of the clean-up contains none of the seven characters
  \<open>< > : " | ? *\<close>; for an identifier that does not begin with \<open>.\<close> or \<open>/\<close> the output is
  the identifier with each of these seven replaced by an underscore and every other
  character unchanged; a raw control character (a code below 32) is never replaced, it
  occurs in the output exactly when it occurs in the identifier; and the identifier
  \<open>a<b>c:"d|e?f*g.js\<close> becomes \<open>a_b_c__d_e_f_g.js\<close>.
\<close>

theorem illegal_characters_replaced:
  "set (cleanPath s) \<inter> set illegalChars = {} \<and>
   (a \<noteq> CHR ''.'' \<and> a \<noteq> CHR ''/'' \<longrightarrow>
      cleanPath (a # s) = map (\<lambda>c. if c \<in> set illegalChars then CHR ''_'' else c) (a # s)) \<and>
   ((of_char k :: nat) < 32 \<longrightarrow> (k \<in> set (cleanPath s) \<longleftrightarrow> k \<in> set s)) \<and>
   cleanPath (''a<b>c:'' @ [CHR 0x22] @ ''d|e?f*g.js'') = ''a_b_c__d_e_f_g.js''"
proof (intro conjI impI)
  show "set (cleanPath s) \<inter> set illegalChars = {}" by (rule cleanPath_legal)
next
  assume "a \<noteq> CHR ''.'' \<and> a \<noteq> CHR ''/''"
  then have "cleanPath (a # s) = replaceIllegal (a # s)" by (simp add: cleanPath_plain)
  then show "cleanPath (a # s) = map (\<lambda>c. if c \<in> set illegalChars then CHR ''_'' else c) (a # s)"
    by (simp add: replaceIllegal_def)
next
  assume k: "(of_char k :: nat) < 32"
  have "k \<notin> set illegalChars" using k by (auto simp: illegalChars_def)
  moreover have "k \<notin> set ''_../parent/''" using k by auto
  ultimately show "k \<in> set (cleanPath s) \<longleftrightarrow> k \<in> set s" by (rule cleanPath_keeps)
next
  show "cleanPath (''a<b>c:'' @ [CHR 0x22] @ ''d|e?f*g.js'') = ''a_b_c__d_e_f_g.js''"
    by (simp add: cleanPath_eval)
qed

theorem illegal_characters_replaced_witness:
  "CHR ''s'' \<noteq> CHR ''.'' \<and> CHR ''s'' \<noteq> CHR ''/'' \<and> (of_char (CHR 0x09) :: nat) < 32 \<and>
   cleanPath (''src/a?'' @ [CHR 0x09] @ ''b*.js'') = ''src/a_'' @ [CHR 0x09] @ ''b_.js'' \<and>
   CHR 0x09 \<in> set (cleanPath (''src/a?'' @ [CHR 0x09] @ ''b*.js'')) \<and>
   set (cleanPath (''src/a?'' @ [CHR 0x09] @ ''b*.js'')) \<inter> set illegalChars = {}"
  using illegal_characters_replaced [where a = "CHR ''s''"
      and s = "''rc/a?'' @ [CHR 0x09] @ ''b*.js''" and k = "CHR 0x09"]
  by (simp add: illegalChars_def)

text \<open>
  C5 as stated fails: there is no fallback name and no conversion of separators. The
  identifier \<open>./\<close> becomes the empty path, \<open>..\<close> stays \<open>..\<close>, and a backslash stays.
\<close>

theorem no_fallback_counterexample:
  "cleanPath ''./'' = [] \<and> cleanPath ''..'' = ''..'' \<and>
   cleanPath [CHR ''a'', CHR 0x5C, CHR ''b''] = [CHR ''a'', CHR 0x5C, CHR ''b'']"
  by (simp add: cleanPath_eval)

text \<open>
  C5, amended: the clean-up has no fallback name and leaves separators as they are: its
  output is empty exactly for the four identifiers \<open>""\<close>, \<open>/\<close>, \<open>./\<close> and \<open>.//\<close> (and non-empty
  for every other identifier), it contains a backslash exactly when the identifier does,
  and the identifiers \<open>.\<close> and \<open>..\<close> are returned as they are.
\<close>

theorem cleanPath_empty_and_backslash:
  "(cleanPath s = [] \<longleftrightarrow> s \<in> {[], ''/'', ''./'', ''.//''}) \<and>
   (CHR 0x5C \<in> set (cleanPath s) \<longleftrightarrow> CHR 0x5C \<in> set s) \<and>
   cleanPath ''.'' = ''.'' \<and> cleanPath ''..'' = ''..''"
proof (intro conjI)
  show "cleanPath s = [] \<longleftrightarrow> s \<in> {[], ''/'', ''./'', ''.//''}" by (rule cleanPath_empty_iff)
next
  show "CHR 0x5C \<in> set (cleanPath s) \<longleftrightarrow> CHR 0x5C \<in> set s"
    by (rule cleanPath_keeps) (simp_all add: illegalChars_def)
next
  show "cleanPath ''.'' = ''.''" by (simp add: cleanPath_eval)
next
  show "cleanPath ''..'' = ''..''" by (simp add: cleanPath_eval)
qed

theorem cleanPath_empty_and_backslash_witness:
  "cleanPath ''.//'' = [] \<and> CHR 0x5C \<notin> set (cleanPath ''.//'')"
  using cleanPath_empty_and_backslash [of "''.//''"] by simp

text \<open>
  C6: of the three example equalities the second and the third hold. The first does not:
  the colon of \<open>webpack://./\<close> is replaced by an underscore on line 182, before the prefix
  is tested on line 185, so that test never succeeds (\<open>webpack_branch_dead\<close>) and the
  identifier \<open>webpack://./src/a.js\<close> becomes \<open>webpack_//./src/a.js\<close>, not \<open>src/a.js\<close>.
\<close>

theorem webpack_prefix_not_stripped:
  "cleanPath ''webpack://./src/a.js'' = ''webpack_//./src/a.js'' \<and>
   cleanPath ''./utils/helpers.js'' = ''utils/helpers.js'' \<and>
   cleanPath ''../../shared/x.js'' = ''parent/parent/shared/x.js''"
  by (simp add: cleanPath_eval)

section \<open>The claims about the archive\<close>

text \<open>
  C1 as stated fails: the loop stores every content at its cleaned path and nothing in it
  looks for a path that is already taken. For the sources \<open>a.js\<close>, \<open>a.js\<close> the loop comes to
  its end with an archive that has the single entry \<open>a.js\<close>, and no entry \<open>a_1.js\<close>.
\<close>

theorem duplicate_sources_counterexample:
  "\<not> waiting (processSources demoEnv
               \<lparr>sources = [''a.js'', ''a.js''], sourceContentFor = (\<lambda>s. Some ''x'')\<rparr>
               ''http://h/app.js.map'' (newZip []) [''a.js'', ''a.js''])
   \<and> dom (archive (processSources demoEnv
               \<lparr>sources = [''a.js'', ''a.js''], sourceContentFor = (\<lambda>s. Some ''x'')\<rparr>
               ''http://h/app.js.map'' (newZip []) [''a.js'', ''a.js''])) = {''a.js''}"
  by (simp add: processSources_def processSource_def sourceContent_def zipFile_def newZip_def
      cleanPath_eval)

text \<open>
  C1, amended: when two entries' raw identifiers normalize to the same path, the later
  entry replaces the earlier one and no suffix is appended: the finished archive has
  exactly one entry per distinct normalized path, and each path holds the content
  resolved for the last source, in sources-array order, that normalizes to it. The loop
  comes to its end, with this archive, whenever no fetch of a source stays pending.
\<close>

theorem later_source_overwrites:
  assumes "sources c = xs @ s # ys" and "cleanPath s \<notin> cleanPath ` set ys"
    and "\<forall>t \<in> set (sources c).
           sourceContentFor c t \<noteq> None \<or> fst (fetchSource e url t) \<noteq> Pending"
  shows "\<not> waiting (processSources e c url (newZip out) (sources c))
         \<and> dom (archive (processSources e c url (newZip out) (sources c)))
           = cleanPath ` set (sources c)
         \<and> fst (sourceContent e c url s) \<noteq> None
         \<and> archive (processSources e c url (newZip out) (sources c)) (cleanPath s)
           = fst (sourceContent e c url s)"
proof -
  from assms(3) have all: "\<forall>t \<in> set (sources c). fst (sourceContent e c url t) \<noteq> None"
    using settles_iff by blast
  with assms(1) have xs: "\<forall>t \<in> set xs. fst (sourceContent e c url t) \<noteq> None" by simp
  from all assms(1) obtain content where content: "fst (sourceContent e c url s) = Some content"
    by auto
  have "\<not> waiting (processSources e c url (newZip out) (sources c))"
    using all by (simp add: loop_finishes_iff newZip_simps)
  moreover have "dom (archive (processSources e c url (newZip out) (sources c)))
           = cleanPath ` set (sources c)"
    using all by (simp add: archive_dom newZip_simps)
  moreover have "archive (processSources e c url (newZip out) (xs @ s # ys)) (cleanPath s)
           = Some content"
    using newZip_simps(3) xs content assms(2) by (rule archive_last)
  ultimately show ?thesis using content assms(1) by simp
qed

theorem later_source_overwrites_witness:
  "sources demoMap = [''/a.js'', ''lib/package.json''] @ ''a.js'' # []
   \<and> cleanPath ''a.js'' \<notin> cleanPath ` set []
   \<and> fst (fetchSource demoEnv ''http://h/app.js.map'' ''/a.js'') \<noteq> Pending
   \<and> fst (fetchSource demoEnv ''http://h/app.js.map'' ''lib/package.json'') \<noteq> Pending
   \<and> sourceContentFor demoMap ''a.js'' \<noteq> None
   \<and> cleanPath ''/a.js'' = cleanPath ''a.js''
   \<and> \<not> waiting (processSources demoEnv demoMap ''http://h/app.js.map'' (newZip [])
              (sources demoMap))
   \<and> dom (archive (processSources demoEnv demoMap ''http://h/app.js.map'' (newZip [])
              (sources demoMap))) = {''a.js'', ''lib/package.json''}
   \<and> archive (processSources demoEnv demoMap ''http://h/app.js.map'' (newZip [])
              (sources demoMap)) ''a.js'' = Some ''let a''"
  using later_source_overwrites [where c = demoMap and xs = "[''/a.js'', ''lib/package.json'']"
      and s = "''a.js''" and ys = "[]" and e = demoEnv and url = "''http://h/app.js.map''"
      and out = "[]"]
  by (simp add: demoMap_def demoEnv_def sourceContent_def fetchSource_def fetchUrl_def
      cleanPath_eval insert_commute)




text \<open>
  C7: every raw identifier of the sources list that contains the substring \<open>package.json\<close>
  is among the package.json files (the list \<open>packageJsonFiles\<close>, the code's manifest files,
  which it reports on the console) whatever the environment does when the sources are
  resolved; it is listed there as often as the sources list names it, so an identifier
  such as \<open>lib/package.json\<close> that the list names once is listed exactly once.
\<close>

theorem manifest_files_recorded:
  assumes "s \<in> set (sources c)" and "includesStr s ''package.json''"
  shows "s \<in> set (packageJsonFiles (sources c))
         \<and> count_list (packageJsonFiles (sources c)) s = count_list (sources c) s
         \<and> (count_list (sources c) s = 1 \<longrightarrow> count_list (packageJsonFiles (sources c)) s = 1)
         \<and> Log (''  - '' @ s) \<in> set (console (snd (withConsumer e url outputPath c w)))"
proof (intro conjI impI)
  from assms(2) show count: "count_list (packageJsonFiles (sources c)) s = count_list (sources c) s"
    by (rule count_packageJsonFiles)
  assume "count_list (sources c) s = 1"
  with count show "count_list (packageJsonFiles (sources c)) s = 1" by simp
next
  from assms show in_files: "s \<in> set (packageJsonFiles (sources c))"
    by (simp add: packageJsonFiles_def)
  then have "Log (''  - '' @ s) \<in> set (reportPackageJson (packageJsonFiles (sources c)))"
    by (rule report_lists_file)
  moreover obtain ls where "console (snd (withConsumer e url outputPath c w)) =
     console w @ Log (''Processing '' @ decimal (length (sources c)) @ '' sources...'')
       # reportPackageJson (packageJsonFiles (sources c)) @ ls"
    using withConsumer_console by blast
  ultimately show "Log (''  - '' @ s) \<in> set (console (snd (withConsumer e url outputPath c w)))"
    by simp
qed

theorem manifest_files_recorded_witness:
  "''lib/package.json'' \<in> set (sources demoMap)
   \<and> includesStr ''lib/package.json'' ''package.json''
   \<and> count_list (sources demoMap) ''lib/package.json'' = 1
   \<and> count_list (packageJsonFiles (sources demoMap)) ''lib/package.json'' = 1
   \<and> Log ''  - lib/package.json''
       \<in> set (console (snd (withConsumer demoEnv ''http://h/app.js.map'' ''out.zip'' demoMap
                              \<lparr>console = [], files = Map.empty\<rparr>)))"
  using manifest_files_recorded [where c = demoMap and s = "''lib/package.json''"
      and e = demoEnv and url = "''http://h/app.js.map''" and outputPath = "''out.zip''"
      and w = "\<lparr>console = [], files = Map.empty\<rparr>"]
  by (simp add: demoMap_def startsWith_def)

text \<open>
  C8: when every source of the map has embedded content, the archive does not depend on
  the environment: two runs on the same map, in any two environments and from any two
  map URLs, both bring the loop to its end and build the same mapping from path to
  content.
\<close>

theorem embedded_runs_agree:
  assumes "\<forall>s \<in> set (sources c). sourceContentFor c s \<noteq> None"
  shows "archive (processSources e1 c url1 (newZip out1) (sources c))
         = archive (processSources e2 c url2 (newZip out2) (sources c))
         \<and> \<not> waiting (processSources e1 c url1 (newZip out1) (sources c))
         \<and> \<not> waiting (processSources e2 c url2 (newZip out2) (sources c))"
  using assms by (rule archive_embedded) (simp_all add: newZip_simps)

theorem embedded_runs_agree_witness:
  "sourceContentFor bundledMap ''a.js'' \<noteq> None
   \<and> sourceContentFor bundledMap ''../b.js'' \<noteq> None
   \<and> archive (processSources demoEnv bundledMap ''http://h/app.js.map'' (newZip [])
            (sources bundledMap))
     = archive (processSources (demoEnv\<lparr>httpGet := (\<lambda>url. RequestError ''getaddrinfo ENOTFOUND h'')\<rparr>)
            bundledMap ''http://other/app.js.map'' (newZip [Log ''again''])
            (sources bundledMap))"
  using embedded_runs_agree [where c = bundledMap
      and ?e1.0 = demoEnv and ?url1.0 = "''http://h/app.js.map''" and ?out1.0 = "[]"
      and ?e2.0 = "demoEnv\<lparr>httpGet := (\<lambda>url. RequestError ''getaddrinfo ENOTFOUND h'')\<rparr>"
      and ?url2.0 = "''http://other/app.js.map''" and ?out2.0 = "[Log ''again'']"]
  by (simp add: bundledMap_def)

section \<open>The claims about failures\<close>

text \<open>
  C9: the claim is what the README's script example relies on (a failed extraction is to
  be caught by the caller), and the code does not do it. No call of \<open>extractSourceMap\<close>
  ends in a rejected promise: the \<open>catch\<close> block of lines 210 to 213 prints the message and
  ends the process. When the request for the map times out, the call prints
  \<open>Error: Request timeout\<close> and ends in \<open>process.exit(1)\<close>; when the response for the map
  breaks off after its headers, the call prints nothing more and never settles. In both
  runs no file is written.
\<close>

theorem fatal_error_not_propagated:
  "fst (extractSourceMap e url outputPath w) \<noteq> Rejected msg
   \<and> extractSourceMap demoEnv ''http://h/missing.js.map'' ''out.zip''
        \<lparr>console = [], files = Map.empty\<rparr>
     = (Exited 1,
        \<lparr>console = [Log ''Fetching source map from: http://h/missing.js.map'',
                    Error ''Error:'' ''Request timeout''],
         files = Map.empty\<rparr>)
   \<and> extractSourceMap demoEnv ''http://h/broken.js.map'' ''out.zip''
        \<lparr>console = [], files = Map.empty\<rparr>
     = (NeverSettles,
        \<lparr>console = [Log ''Fetching source map from: http://h/broken.js.map''],
         files = Map.empty\<rparr>)"
proof (intro conjI)
  show "fst (extractSourceMap e url outputPath w) \<noteq> Rejected msg"
    by (rule extractSourceMap_never_rejected)
next
  show "extractSourceMap demoEnv ''http://h/missing.js.map'' ''out.zip''
        \<lparr>console = [], files = Map.empty\<rparr>
     = (Exited 1,
        \<lparr>console = [Log ''Fetching source map from: http://h/missing.js.map'',
                    Error ''Error:'' ''Request timeout''],
         files = Map.empty\<rparr>)"
    by (simp add: extractSourceMap_def demoEnv_def fetchUrl_def fatal_def say_def Let_def)
next
  show "extractSourceMap demoEnv ''http://h/broken.js.map'' ''out.zip''
        \<lparr>console = [], files = Map.empty\<rparr>
     = (NeverSettles,
        \<lparr>console = [Log ''Fetching source map from: http://h/broken.js.map''],
         files = Map.empty\<rparr>)"
    by (simp add: extractSourceMap_def demoEnv_def fetchUrl_def fatal_def say_def Let_def)
qed

text \<open>
  C10: a response whose status is outside the range from 200 to 299 rejects the fetch with
  the message \<open>HTTP error! status: <status>\<close>, whatever becomes of its body; a redirect is
  such a response and no second request is made for it. A source without embedded content
  whose request is answered so gets the placeholder text, not a fetched content.
\<close>

theorem non_success_status_rejected:
  assumes "httpGet e href = Response statusCode body"
    and "statusCode < 200 \<or> 300 \<le> statusCode"
  shows "fetchUrl (httpGet e) href = Rejects (''HTTP error! status: '' @ decimal statusCode)
         \<and> (sourceContentFor c s = None \<and> resolveUrl e s url = Inr href \<longrightarrow>
              sourceContent e c url s =
                (Some (''// Error fetching source: '' @ s @ [CHR 0x0A]
                       @ ''// HTTP error! status: '' @ decimal statusCode),
                 [Log (''Fetching source from: '' @ href),
                  Warn (''Error fetching '' @ s @ '':'')
                       (''HTTP error! status: '' @ decimal statusCode)]))"
  using assms
  by (auto simp: fetchUrl_def sourceContent_def fetchSource_def placeholder_def)

theorem non_success_status_rejected_witness:
  "httpGet demoEnv ''http://h/lib/package.json'' = Response 301 (Some [])
   \<and> ((301::nat) < 200 \<or> (300::nat) \<le> 301)
   \<and> sourceContentFor demoMap ''lib/package.json'' = None
   \<and> resolveUrl demoEnv ''lib/package.json'' ''http://h/app.js.map'' = Inr ''http://h/lib/package.json''
   \<and> fetchUrl (httpGet demoEnv) ''http://h/lib/package.json'' = Rejects ''HTTP error! status: 301''
   \<and> sourceContent demoEnv demoMap ''http://h/app.js.map'' ''lib/package.json'' =
        (Some (''// Error fetching source: lib/package.json'' @ [CHR 0x0A]
               @ ''// HTTP error! status: 301''),
         [Log ''Fetching source from: http://h/lib/package.json'',
          Warn ''Error fetching lib/package.json:'' ''HTTP error! status: 301''])"
  using non_success_status_rejected [where e = demoEnv and href = "''http://h/lib/package.json''"
      and statusCode = 301 and body = "Some []" and c = demoMap and s = "''lib/package.json''"
      and url = "''http://h/app.js.map''"]
  by (simp add: demoEnv_def demoMap_def decimal.simps)

end
